theory Spec2Isabelle
  imports Main "HOL-Library.Word" "HOL-Library.Signed_Division"
begin

section \<open>Data model: signed 64-bit integers\<close>

text \<open>
  The program computes on \<^verbatim>\<open>long long\<close>, a signed 64-bit integer. It is modelled as a
  64-bit word read in two's complement by \<^const>\<open>sint\<close>: addition, subtraction and
  multiplication on words wrap around modulo \<open>2 ^ 64\<close>, which is the fixed-width behaviour
  the specification's data model describes for the multiplications of \<^verbatim>\<open>binPow\<close>.
\<close>

type_synonym ll = "64 word"

text \<open>
  The operators \<^verbatim>\<open>%\<close> and \<^verbatim>\<open>/\<close> of C++ truncate towards zero: the remainder has the sign
  of the dividend (\<^verbatim>\<open>-3 % 2 == -1\<close>, \<^verbatim>\<open>-3 / 2 == -1\<close>). On \<^typ>\<open>int\<close> these are
  \<open>smod\<close> and \<open>sdiv\<close>; \<open>mod\<close> and \<open>div\<close> of HOL round towards minus infinity and
  would give another program. The source only ever divides by the constant \<^verbatim>\<open>2\<close>.
\<close>

definition ll_rem :: "ll \<Rightarrow> ll \<Rightarrow> ll" where
  "ll_rem x y = word_of_int (sint x smod sint y)"

definition ll_div :: "ll \<Rightarrow> ll \<Rightarrow> ll" where
  "ll_div x y = word_of_int (sint x sdiv sint y)"

section \<open>The exponentiation function\<close>

text \<open>
  \<^verbatim>\<open>
  long long binPow(long long a, long long n) {
      if (n == 0) {
          return 1;
      }
      if (n % 2 == 1) {
          return binPow(a, n-1) * a;
      } else {
          long long b = binPow(a, n/2);
          return b * b;
      }
  }
  \<close>
  The recursion is not structural and nothing in the source bounds the exponent, so the
  function is defined in the option monad: \<open>None\<close> stands for a call that never
  returns, and that a call returns is a theorem to be proved, not a by-product of the
  definition.
\<close>

partial_function (option) binPow :: "ll \<Rightarrow> ll \<Rightarrow> ll option" where
  "binPow a n =
     (if n = 0 then Some 1
      else if ll_rem n 2 = 1 then
        Option.bind (binPow a (n - 1)) (\<lambda>r. Some (r * a))
      else
        Option.bind (binPow a (ll_div n 2)) (\<lambda>b. Some (b * b)))"

declare binPow.simps [code]

subsection \<open>The specified value\<close>

text \<open>
  The specification's wording of the result: the exact mathematical value, reduced
  modulo \<open>2 ^ 64\<close> and read as a two's-complement signed 64-bit integer.
\<close>

definition wrap64 :: "int \<Rightarrow> int" where
  "wrap64 x = (let m = x mod 2 ^ 64 in if m < 2 ^ 63 then m else m - 2 ^ 64)"

section \<open>Standard input and output\<close>

text \<open>
  \<^verbatim>\<open>cin\<close> is modelled by the characters not yet read and the two state bits the
  extraction operator reads and writes. \<^verbatim>\<open>cin >> x\<close> for a \<^verbatim>\<open>long long\<close> is the
  formatted extraction of the C++ standard library in its default state (decimal base,
  whitespace skipping on, the classic locale):
  \<^item> on a stream that is not good it sets \<^verbatim>\<open>failbit\<close> and leaves \<^verbatim>\<open>x\<close> as it was;
  \<^item> it skips leading whitespace; at the end of input it sets \<^verbatim>\<open>eofbit\<close> and
    \<^verbatim>\<open>failbit\<close> and leaves \<^verbatim>\<open>x\<close> as it was;
  \<^item> it reads an optional sign and the longest run of decimal digits, setting
    \<^verbatim>\<open>eofbit\<close> when the run ends with the input;
  \<^item> with no digit it stores \<^verbatim>\<open>0\<close> and sets \<^verbatim>\<open>failbit\<close>; with a value out of range
    it stores the nearest bound and sets \<^verbatim>\<open>failbit\<close>; otherwise it stores the value.
  The variable is an \<open>ll option\<close>: \<open>None\<close> is a variable declared without an
  initialiser and never assigned.
\<close>

record istream =
  buf :: string
  eofbit :: bool
  failbit :: bool

definition good :: "istream \<Rightarrow> bool" where
  "good s = (\<not> eofbit s \<and> \<not> failbit s)"

definition isspace :: "char \<Rightarrow> bool" where
  "isspace c = (c \<in> {CHR '' '', CHR 0x09, CHR 0x0A, CHR 0x0B, CHR 0x0C, CHR 0x0D})"

definition isdigit :: "char \<Rightarrow> bool" where
  "isdigit c = (48 \<le> (of_char c :: int) \<and> (of_char c :: int) \<le> 57)"

definition digit_val :: "char \<Rightarrow> int" where
  "digit_val c = of_char c - 48"

definition digits_val :: "string \<Rightarrow> int" where
  "digits_val cs = foldl (\<lambda>acc c. 10 * acc + digit_val c) 0 cs"

definition LLONG_MAX :: ll where
  "LLONG_MAX = 9223372036854775807"

definition LLONG_MIN :: ll where
  "LLONG_MIN = - 9223372036854775807 - 1"

definition extract_ll :: "istream \<Rightarrow> ll option \<Rightarrow> istream \<times> ll option" where
  "extract_ll s x =
     (if \<not> good s then (s\<lparr>failbit := True\<rparr>, x)
      else
        let b = dropWhile isspace (buf s) in
        if b = [] then (s\<lparr>buf := [], eofbit := True, failbit := True\<rparr>, x)
        else
          let neg = (hd b = CHR ''-'');
              b1 = (if hd b = CHR ''-'' \<or> hd b = CHR ''+'' then tl b else b);
              ds = takeWhile isdigit b1;
              rest = dropWhile isdigit b1;
              s' = s\<lparr>buf := rest, eofbit := (rest = [])\<rparr>;
              v = digits_val ds
          in
            if ds = [] then (s'\<lparr>failbit := True\<rparr>, Some 0)
            else if neg then
              (if v \<le> 2 ^ 63 then (s', Some (- word_of_int v))
               else (s'\<lparr>failbit := True\<rparr>, Some LLONG_MIN))
            else
              (if v < 2 ^ 63 then (s', Some (word_of_int v))
               else (s'\<lparr>failbit := True\<rparr>, Some LLONG_MAX)))"

text \<open>
  \<^verbatim>\<open>cout << r\<close> for a \<^verbatim>\<open>long long\<close> writes the decimal digits of the value, with a
  leading minus sign when it is negative and no padding.
\<close>

definition digit_char :: "int \<Rightarrow> char" where
  "digit_char d = char_of (48 + d)"

function dec :: "int \<Rightarrow> string" where
  "dec k = (if k < 10 then [digit_char k] else dec (k div 10) @ [digit_char (k mod 10)])"
  by pat_completeness auto
termination
  by (relation "measure nat") auto

declare dec.simps [simp del]

definition show_int :: "int \<Rightarrow> string" where
  "show_int i = (if i < 0 then CHR ''-'' # dec (- i) else dec i)"

definition show_ll :: "ll \<Rightarrow> string" where
  "show_ll w = show_int (sint w)"

text \<open>
  \<^verbatim>\<open>
  void RunMain() {
      long long number, power;
      cin >> number >> power;
      cout << binPow(number, power) << '\n';
  }
  \<close>
  The model maps the whole of standard input to what is written to standard output.
  Reading a variable that no extraction assigned has no defined value in C++ and is an
  error of the model; so is a call of \<^verbatim>\<open>binPow\<close> that does not return.
\<close>

datatype error = Uninitialized_Read | No_Return

definition RunMain :: "string \<Rightarrow> error + string" where
  "RunMain input =
     (let cin0 = \<lparr>buf = input, eofbit = False, failbit = False\<rparr>;
          (cin1, number) = extract_ll cin0 None;
          (cin2, power) = extract_ll cin1 None
      in case (number, power) of
           (Some a, Some n) \<Rightarrow>
             (case binPow a n of
                Some r \<Rightarrow> Inr (show_ll r @ [CHR 0x0A])
              | None \<Rightarrow> Inl No_Return)
         | _ \<Rightarrow> Inl Uninitialized_Read)"

section \<open>The function in the state of the program\<close>

text \<open>
  The objects of the program that outlive a call are its two standard streams: what
  remains to be read from \<^verbatim>\<open>cin\<close>, with its state bits, and what has been written to
  \<^verbatim>\<open>cout\<close>. The translation unit declares no other global, and the body of
  \<^verbatim>\<open>binPow\<close> allocates nothing.
\<close>

record world =
  cin :: istream
  cout :: string

text \<open>
  \<open>binPow_st\<close> is the source function again, this time as a step of the program: it
  receives the state in which the call is made and returns the state in which the
  call ends with the value. Statement by statement: the tests \<^verbatim>\<open>n == 0\<close> and
  \<^verbatim>\<open>n % 2 == 1\<close> and the products read the parameters and the local \<^verbatim>\<open>b\<close>; each
  recursive call starts in the state of its caller and the caller goes on in the state
  the call ended in.
\<close>

partial_function (option) binPow_st :: "ll \<Rightarrow> ll \<Rightarrow> world \<Rightarrow> (ll \<times> world) option" where
  "binPow_st a n w =
     (if n = 0 then Some (1, w)
      else if ll_rem n 2 = 1 then
        Option.bind (binPow_st a (n - 1) w) (\<lambda>(r, w'). Some (r * a, w'))
      else
        Option.bind (binPow_st a (ll_div n 2) w) (\<lambda>(b, w'). Some (b * b, w')))"

declare binPow_st.simps [code]

text \<open>
  The two statements of \<^verbatim>\<open>RunMain\<close> around the call do change that state:
  \<^verbatim>\<open>cin >> x\<close> consumes input and sets state bits, \<^verbatim>\<open>cout << v\<close> appends to the output.
\<close>

definition cin_extract :: "ll option \<Rightarrow> world \<Rightarrow> ll option \<times> world" where
  "cin_extract x w = (let (s, x') = extract_ll (cin w) x in (x', w\<lparr>cin := s\<rparr>))"

definition cout_insert :: "string \<Rightarrow> world \<Rightarrow> world" where
  "cout_insert t w = w\<lparr>cout := cout w @ t\<rparr>"

definition RunMain_st :: "world \<Rightarrow> error + world" where
  "RunMain_st w0 =
     (let (number, w1) = cin_extract None w0;
          (power, w2) = cin_extract None w1
      in case (number, power) of
           (Some a, Some n) \<Rightarrow>
             (case binPow_st a n w2 of
                Some (r, w3) \<Rightarrow> Inr (cout_insert [CHR 0x0A] (cout_insert (show_ll r) w3))
              | None \<Rightarrow> Inl No_Return)
         | _ \<Rightarrow> Inl Uninitialized_Read)"

section \<open>Arithmetic of the two branches\<close>

lemma sint_ll_bounds: "- (2 ^ 63) \<le> sint (n :: ll) \<and> sint n < 2 ^ 63"
  using sint_ge [of n] sint_lt [of n] by simp

lemma sint_small: "- (2 ^ 63) \<le> k \<Longrightarrow> k < 2 ^ 63 \<Longrightarrow> sint (word_of_int k :: ll) = k"
  by (simp add: signed_of_int signed_take_bit_int_eq_self)

lemma smod_2_cases: "(k :: int) smod 2 = (if even k then 0 else if 0 < k then 1 else - 1)"
proof (cases "even k")
  case True
  then show ?thesis by (auto simp: signed_modulo_int_def sgn_if)
next
  case False
  then have "\<bar>k\<bar> mod 2 = 1" by presburger
  with False show ?thesis by (auto simp add: signed_modulo_int_def sgn_if)
qed

lemma sdiv_2_nonneg: "0 \<le> (k :: int) \<Longrightarrow> k sdiv 2 = k div 2"
  by (simp add: signed_divide_int_def sgn_if)

lemma sdiv_2_neg: "(k :: int) < 0 \<Longrightarrow> k sdiv 2 = - ((- k) div 2)"
  by (simp add: signed_divide_int_def sgn_if)

lemma ll_rem_2: "ll_rem n 2 = word_of_int (if even (sint n) then 0 else if 0 < sint n then 1 else - 1)"
  by (simp add: ll_rem_def smod_2_cases)

lemma ll_rem_2_eq_1: "ll_rem n 2 = 1 \<longleftrightarrow> 0 < sint n \<and> odd (sint n)"
  by (auto simp: ll_rem_2)

lemma sint_ll_div_2: "sint (ll_div n 2) = sint n sdiv 2"
proof -
  have "- (2 ^ 63) \<le> sint n sdiv 2 \<and> sint n sdiv 2 < 2 ^ 63"
    using sint_ll_bounds [of n]
    by (cases "0 \<le> sint n") (simp_all add: sdiv_2_nonneg sdiv_2_neg, linarith+)
  then show ?thesis by (simp add: ll_div_def sint_small)
qed

lemma sint_pred: "0 < sint (n :: ll) \<Longrightarrow> sint (n - 1) = sint n - 1"
proof -
  assume "0 < sint n"
  then have "- (2 ^ 63) \<le> sint n - 1 \<and> sint n - 1 < 2 ^ 63"
    using sint_ll_bounds [of n] by linarith
  then have "signed_take_bit 63 (sint n - 1) = sint n - 1"
    by (simp add: signed_take_bit_int_eq_self)
  then show ?thesis by (simp add: sint_word_ariths)
qed

lemma nonzero_nonneg_pos: "n \<noteq> 0 \<Longrightarrow> 0 \<le> sint (n :: ll) \<Longrightarrow> 0 < sint n"
proof -
  assume "n \<noteq> 0" and "0 \<le> sint n"
  from \<open>n \<noteq> 0\<close> have "sint n \<noteq> 0" by (simp add: signed_eq_0_iff)
  with \<open>0 \<le> sint n\<close> show ?thesis by linarith
qed

section \<open>What \<open>binPow\<close> returns\<close>

lemma binPow_nonneg_aux:
  "0 \<le> sint n \<Longrightarrow> nat (sint n) = k \<Longrightarrow> binPow a n = Some (a ^ k)"
proof (induction k arbitrary: n rule: less_induct)
  case (less k)
  show ?case
  proof (cases "n = 0")
    case True
    with less.prems show ?thesis by (simp add: binPow.simps)
  next
    case nz: False
    with less.prems(1) have pos: "0 < sint n" by (simp add: nonzero_nonneg_pos)
    show ?thesis
    proof (cases "ll_rem n 2 = 1")
      case True
      have s: "sint (n - 1) = sint n - 1" using pos by (rule sint_pred)
      have "binPow a (n - 1) = Some (a ^ (k - 1))"
        using less.IH [of "k - 1" "n - 1"] less.prems pos s by (simp add: nat_diff_distrib)
      moreover have "a ^ (k - 1) * a = a ^ k"
        using less.prems pos by (cases k) simp_all
      ultimately show ?thesis using nz True by (subst binPow.simps) simp
    next
      case False
      then have ev: "even (sint n)" using pos by (simp add: ll_rem_2_eq_1)
      have s: "sint (ll_div n 2) = sint n div 2"
        using pos by (simp add: sint_ll_div_2 sdiv_2_nonneg)
      have k2: "nat (sint n div 2) = k div 2" using less.prems by (simp add: nat_div_distrib)
      have "k div 2 < k" using less.prems pos by simp
      then have "binPow a (ll_div n 2) = Some (a ^ (k div 2))"
        using less.IH [of "k div 2" "ll_div n 2"] s k2 pos by simp
      moreover from less.prems have "sint n = int k" by simp
      with ev have "even k" by simp
      then have "k div 2 + k div 2 = k" by presburger
      then have "a ^ (k div 2) * a ^ (k div 2) = a ^ k"
        by (simp add: power_add [symmetric])
      ultimately show ?thesis using nz False by (subst binPow.simps) simp
    qed
  qed
qed

lemma binPow_nonneg: "0 \<le> sint n \<Longrightarrow> binPow a n = Some (a ^ nat (sint n))"
  by (rule binPow_nonneg_aux [OF _ refl])

lemma binPow_neg_aux:
  "sint n < 0 \<Longrightarrow> nat (- sint n) = k \<Longrightarrow> binPow a n = Some 1"
proof (induction k arbitrary: n rule: less_induct)
  case (less k)
  from less.prems have nz: "n \<noteq> 0" by auto
  from less.prems have br: "ll_rem n 2 \<noteq> 1" by (simp add: ll_rem_2_eq_1)
  have s: "sint (ll_div n 2) = - ((- sint n) div 2)"
    using less.prems by (simp add: sint_ll_div_2 sdiv_2_neg)
  have "binPow a (ll_div n 2) = Some 1"
  proof (cases "sint (ll_div n 2) = 0")
    case True
    then have "ll_div n 2 = 0" by (simp add: signed_eq_0_iff)
    then show ?thesis by (simp add: binPow.simps)
  next
    case False
    with s have neg: "sint (ll_div n 2) < 0" using less.prems by linarith
    have "nat (- sint (ll_div n 2)) < k" using s less.prems by simp
    then show ?thesis using less.IH [OF _ neg refl] by simp
  qed
  then show ?case using nz br by (subst binPow.simps) simp
qed

lemma binPow_neg: "sint n < 0 \<Longrightarrow> binPow a n = Some 1"
  by (rule binPow_neg_aux [OF _ refl])

section \<open>Wrapping into 64 signed bits\<close>

lemma wrap_generic:
  fixes H x :: int
  assumes H: "0 < H"
  shows "(x + H) mod (2 * H) - H = (let m = x mod (2 * H) in if m < H then m else m - 2 * H)"
proof -
  define m where "m = x mod (2 * H)"
  have m: "0 \<le> m" "m < 2 * H" using H by (simp_all add: m_def)
  have e: "(x + H) mod (2 * H) = (m + H) mod (2 * H)"
    unfolding m_def by (simp add: mod_add_left_eq)
  show ?thesis
  proof (cases "m < H")
    case True
    with m have "(m + H) mod (2 * H) = m + H" by (simp add: mod_pos_pos_trivial)
    with e True show ?thesis by (simp add: m_def [symmetric])
  next
    case False
    have "(m + H) mod (2 * H) = (m - H + 2 * H) mod (2 * H)" by (simp add: algebra_simps)
    also have "\<dots> = (m - H) mod (2 * H)" by (rule mod_add_self2)
    also have "\<dots> = m - H" using False m by (simp add: mod_pos_pos_trivial)
    finally have "(m + H) mod (2 * H) = m - H" .
    with e False show ?thesis by (simp add: m_def [symmetric])
  qed
qed

lemma wrap64_signed_take_bit: "wrap64 x = signed_take_bit 63 x"
proof -
  have "signed_take_bit 63 x = (x + 2 ^ 63) mod (2 * 2 ^ 63) - 2 ^ 63"
    by (simp add: signed_take_bit_eq_take_bit_shift take_bit_eq_mod)
  also have "\<dots> = (let m = x mod (2 * 2 ^ 63) in if m < 2 ^ 63 then m else m - 2 * 2 ^ 63)"
    by (rule wrap_generic) simp
  also have "\<dots> = wrap64 x" by (simp add: wrap64_def Let_def)
  finally show ?thesis by simp
qed

lemma sint_power_wrap: "sint (a ^ k :: ll) = wrap64 (sint a ^ k)"
proof -
  have "a ^ k = word_of_int (sint a ^ k)" by simp
  then have "sint (a ^ k) = sint (word_of_int (sint a ^ k) :: ll)" by simp
  also have "\<dots> = signed_take_bit 63 (sint a ^ k)" by (simp only: signed_of_int) simp
  finally show ?thesis by (simp add: wrap64_signed_take_bit)
qed

lemma odd_branch_decreases:
  "0 \<le> sint n \<Longrightarrow> ll_rem n 2 = 1 \<Longrightarrow> 0 \<le> sint (n - 1) \<and> sint (n - 1) < sint n"
  by (simp add: ll_rem_2_eq_1 sint_pred)

lemma even_branch_decreases:
  "0 \<le> sint n \<Longrightarrow> n \<noteq> 0 \<Longrightarrow> 0 \<le> sint (ll_div n 2) \<and> sint (ll_div n 2) < sint n"
proof -
  assume "0 \<le> sint n" and "n \<noteq> 0"
  then have pos: "0 < sint n" by (simp add: nonzero_nonneg_pos)
  then have "sint (ll_div n 2) = sint n div 2" by (simp add: sint_ll_div_2 sdiv_2_nonneg)
  with pos show ?thesis by simp
qed

lemma neg_branch_increases:
  "sint n < 0 \<Longrightarrow> sint n < sint (ll_div n 2) \<and> sint (ll_div n 2) \<le> 0"
proof -
  assume neg: "sint n < 0"
  then have "sint (ll_div n 2) = - ((- sint n) div 2)" by (simp add: sint_ll_div_2 sdiv_2_neg)
  with neg show ?thesis by simp
qed

lemma binPow_nonpos_half: "sint n < 0 \<Longrightarrow> binPow a (ll_div n 2) = Some 1"
proof -
  assume "sint n < 0"
  then have le: "sint (ll_div n 2) \<le> 0" by (simp add: neg_branch_increases)
  show ?thesis
  proof (cases "sint (ll_div n 2) = 0")
    case True
    then have "ll_div n 2 = 0" by (simp add: signed_eq_0_iff)
    then show ?thesis by (simp add: binPow.simps)
  next
    case False
    with le have "sint (ll_div n 2) < 0" by linarith
    then show ?thesis by (rule binPow_neg)
  qed
qed

section \<open>Reading back what was printed\<close>

lemma of_char_digit_char: "0 \<le> d \<Longrightarrow> d < 10 \<Longrightarrow> (of_char (digit_char d) :: int) = 48 + d"
  by (simp add: digit_char_def of_char_of)

lemma isdigit_digit_char: "0 \<le> d \<Longrightarrow> d < 10 \<Longrightarrow> isdigit (digit_char d)"
  by (simp add: isdigit_def of_char_digit_char)

lemma digit_val_digit_char: "0 \<le> d \<Longrightarrow> d < 10 \<Longrightarrow> digit_val (digit_char d) = d"
  by (simp add: digit_val_def of_char_digit_char)

lemma isdigit_not_space_sign:
  "isdigit c \<Longrightarrow> \<not> isspace c \<and> c \<noteq> CHR ''-'' \<and> c \<noteq> CHR ''+''"
  by (auto simp: isdigit_def isspace_def)

lemma minus_not_space: "\<not> isspace (CHR ''-'')"
  by (simp add: isspace_def)

lemma digits_val_snoc: "digits_val (cs @ [c]) = 10 * digits_val cs + digit_val c"
  by (simp add: digits_val_def)

lemma digits_val_single: "digits_val [c] = digit_val c"
  by (simp add: digits_val_def)

lemma dec_digits: "0 \<le> k \<Longrightarrow> dec k \<noteq> [] \<and> (\<forall>c\<in>set (dec k). isdigit c)"
proof (induction k rule: dec.induct)
  case (1 k)
  show ?case
  proof (cases "k < 10")
    case True
    with "1.prems" show ?thesis by (subst dec.simps, subst (2) dec.simps) (simp add: isdigit_digit_char)
  next
    case False
    then have "0 \<le> k div 10" by simp
    with False "1.IH" have "\<forall>c\<in>set (dec (k div 10)). isdigit c" by simp
    moreover have "isdigit (digit_char (k mod 10))" by (simp add: isdigit_digit_char)
    ultimately show ?thesis using False by (subst dec.simps, subst (2) dec.simps) simp
  qed
qed

lemma digits_val_dec: "0 \<le> k \<Longrightarrow> digits_val (dec k) = k"
proof (induction k rule: dec.induct)
  case (1 k)
  show ?case
  proof (cases "k < 10")
    case True
    with "1.prems" show ?thesis
      by (subst dec.simps) (simp add: digits_val_single digit_val_digit_char)
  next
    case False
    then have "0 \<le> k div 10" by simp
    with False "1.IH" have "digits_val (dec (k div 10)) = k div 10" by simp
    moreover have "digit_val (digit_char (k mod 10)) = k mod 10"
      by (simp add: digit_val_digit_char)
    ultimately show ?thesis using False
      by (subst dec.simps) (simp add: digits_val_snoc)
  qed
qed

lemma span_digits:
  assumes "\<forall>c\<in>set ds. isdigit c" and "rest = [] \<or> \<not> isdigit (hd rest)"
  shows "takeWhile isdigit (ds @ rest) = ds" and "dropWhile isdigit (ds @ rest) = rest"
proof -
  from assms(2) have t: "takeWhile isdigit rest = []" and d: "dropWhile isdigit rest = rest"
    by (cases rest; simp)+
  from assms(1) t show "takeWhile isdigit (ds @ rest) = ds" by (simp add: takeWhile_append2)
  from assms(1) d show "dropWhile isdigit (ds @ rest) = rest" by (simp add: dropWhile_append2)
qed

lemma skip_space:
  assumes "\<forall>c\<in>set ws. isspace c" and "\<not> isspace c"
  shows "dropWhile isspace (ws @ c # cs) = c # cs"
  using assms by (simp add: dropWhile_append2)

lemma extract_ll_nonneg:
  assumes g: "good s" and k: "0 \<le> k" "k < 2 ^ 63"
    and b: "buf s = ws @ dec k @ rest"
    and ws: "\<forall>c\<in>set ws. isspace c"
    and r: "rest = [] \<or> \<not> isdigit (hd rest)"
  shows "extract_ll s x = (s\<lparr>buf := rest, eofbit := (rest = [])\<rparr>, Some (word_of_int k))"
proof -
  from dec_digits [OF k(1)] obtain c cs where d: "dec k = c # cs" and ds: "\<forall>c\<in>set (dec k). isdigit c"
    by (cases "dec k") auto
  from d ds have c: "isdigit c" by simp
  then have c': "\<not> isspace c" "c \<noteq> CHR ''-''" "c \<noteq> CHR ''+''"
    by (simp_all add: isdigit_not_space_sign)
  have drop: "dropWhile isspace (buf s) = dec k @ rest"
    using skip_space [OF ws c'(1), of "cs @ rest"] by (simp add: b d)
  have ne: "dec k @ rest \<noteq> []" and hd: "hd (dec k @ rest) = c" by (simp_all add: d)
  note sp = span_digits [OF ds r]
  have ne': "dec k \<noteq> []" by (simp add: d)
  show ?thesis
    unfolding extract_ll_def Let_def drop
    using g k c' ne ne' by (simp add: hd sp digits_val_dec)
qed

lemma extract_ll_neg:
  assumes g: "good s" and k: "0 \<le> k" "k \<le> 2 ^ 63"
    and b: "buf s = ws @ CHR ''-'' # dec k @ rest"
    and ws: "\<forall>c\<in>set ws. isspace c"
    and r: "rest = [] \<or> \<not> isdigit (hd rest)"
  shows "extract_ll s x = (s\<lparr>buf := rest, eofbit := (rest = [])\<rparr>, Some (- word_of_int k))"
proof -
  from dec_digits [OF k(1)] have ne': "dec k \<noteq> []" and ds: "\<forall>c\<in>set (dec k). isdigit c"
    by simp_all
  have drop: "dropWhile isspace (buf s) = CHR ''-'' # dec k @ rest"
    using skip_space [OF ws minus_not_space, of "dec k @ rest"] by (simp add: b)
  note sp = span_digits [OF ds r]
  show ?thesis
    unfolding extract_ll_def Let_def drop
    using g k ne' by (simp add: digits_val_dec sp)
qed

lemma extract_ll_show_ll:
  assumes g: "good s"
    and b: "buf s = ws @ show_ll a @ rest"
    and ws: "\<forall>c\<in>set ws. isspace c"
    and r: "rest = [] \<or> \<not> isdigit (hd rest)"
  shows "extract_ll s x = (s\<lparr>buf := rest, eofbit := (rest = [])\<rparr>, Some a)"
proof (cases "sint a < 0")
  case False
  then have k: "0 \<le> sint a" "sint a < 2 ^ 63" using sint_ll_bounds [of a] by simp_all
  from False b have "buf s = ws @ dec (sint a) @ rest" by (simp add: show_ll_def show_int_def)
  from extract_ll_nonneg [OF g k this ws r] show ?thesis by simp
next
  case True
  then have k: "0 \<le> - sint a" "- sint a \<le> 2 ^ 63" using sint_ll_bounds [of a] by simp_all
  from True b have "buf s = ws @ CHR ''-'' # dec (- sint a) @ rest"
    by (simp add: show_ll_def show_int_def)
  from extract_ll_neg [OF g k this ws r] show ?thesis by simp
qed

lemma isspace_not_digit: "isspace c \<Longrightarrow> \<not> isdigit c"
  using isdigit_not_space_sign [of c] by blast

lemma RunMain_two_numbers:
  assumes ws1: "\<forall>c\<in>set ws1. isspace c"
    and ws2: "ws2 \<noteq> []" "\<forall>c\<in>set ws2. isspace c"
    and r: "rest = [] \<or> \<not> isdigit (hd rest)"
  shows "RunMain (ws1 @ show_ll a @ ws2 @ show_ll n @ rest) =
           (case binPow a n of Some r \<Rightarrow> Inr (show_ll r @ [CHR 0x0A]) | None \<Rightarrow> Inl No_Return)"
proof -
  define cin0 where "cin0 = \<lparr>buf = ws1 @ show_ll a @ ws2 @ show_ll n @ rest, eofbit = False, failbit = False\<rparr>"
  define cin1 where "cin1 = \<lparr>buf = ws2 @ show_ll n @ rest, eofbit = False, failbit = False\<rparr>"
  define cin2 where "cin2 = \<lparr>buf = rest, eofbit = (rest = []), failbit = False\<rparr>"
  from ws2 obtain w ws where w: "ws2 = w # ws" "isspace w" by (cases ws2) auto
  then have r1: "ws2 @ show_ll n @ rest = [] \<or> \<not> isdigit (hd (ws2 @ show_ll n @ rest))"
    by (simp add: isspace_not_digit)
  have "good cin0" and "buf cin0 = ws1 @ show_ll a @ (ws2 @ show_ll n @ rest)"
    by (simp_all add: cin0_def good_def)
  from extract_ll_show_ll [OF this ws1 r1, of None]
  have e1: "extract_ll cin0 None = (cin1, Some a)"
    using ws2(1) by (simp add: cin0_def cin1_def)
  have "good cin1" and "buf cin1 = ws2 @ show_ll n @ rest"
    by (simp_all add: cin1_def good_def)
  from extract_ll_show_ll [OF this ws2(2) r, of None]
  have e2: "extract_ll cin1 None = (cin2, Some n)"
    by (simp add: cin1_def cin2_def)
  show ?thesis
    unfolding RunMain_def cin0_def [symmetric] by (simp add: e1 e2)
qed

section \<open>The call leaves the state of the program alone\<close>

lemma abs_sint_half: "n \<noteq> 0 \<Longrightarrow> nat \<bar>sint (ll_div n 2)\<bar> < nat \<bar>sint (n :: ll)\<bar>"
proof (cases "0 \<le> sint n")
  case True
  assume "n \<noteq> 0"
  with True even_branch_decreases [of n] show ?thesis by simp
next
  case False
  with neg_branch_increases [of n] show ?thesis by simp
qed

lemma binPow_st_binPow: "binPow_st a n w = map_option (\<lambda>r. (r, w)) (binPow a n)"
proof (induction "nat \<bar>sint n\<bar>" arbitrary: n rule: less_induct)
  case less
  show ?case
  proof (cases "n = 0")
    case True
    then show ?thesis by (simp add: binPow.simps binPow_st.simps)
  next
    case nz: False
    show ?thesis
    proof (cases "ll_rem n 2 = 1")
      case True
      then have "0 < sint n" by (simp add: ll_rem_2_eq_1)
      then have "nat \<bar>sint (n - 1)\<bar> < nat \<bar>sint n\<bar>" by (simp add: sint_pred)
      then have IH: "binPow_st a (n - 1) w = map_option (\<lambda>r. (r, w)) (binPow a (n - 1))"
        by (rule less.hyps)
      have "binPow_st a n w = Option.bind (binPow_st a (n - 1) w) (\<lambda>(r, w'). Some (r * a, w'))"
        by (subst binPow_st.simps) (simp add: nz True)
      moreover have "binPow a n = Option.bind (binPow a (n - 1)) (\<lambda>r. Some (r * a))"
        by (subst binPow.simps) (simp add: nz True)
      ultimately show ?thesis by (cases "binPow a (n - 1)") (simp_all add: IH)
    next
      case False
      from nz have "nat \<bar>sint (ll_div n 2)\<bar> < nat \<bar>sint n\<bar>" by (rule abs_sint_half)
      then have IH: "binPow_st a (ll_div n 2) w = map_option (\<lambda>r. (r, w)) (binPow a (ll_div n 2))"
        by (rule less.hyps)
      have "binPow_st a n w =
          Option.bind (binPow_st a (ll_div n 2) w) (\<lambda>(b, w'). Some (b * b, w'))"
        by (subst binPow_st.simps) (simp add: nz False)
      moreover have "binPow a n = Option.bind (binPow a (ll_div n 2)) (\<lambda>b. Some (b * b))"
        by (subst binPow.simps) (simp add: nz False)
      ultimately show ?thesis by (cases "binPow a (ll_div n 2)") (simp_all add: IH)
    qed
  qed
qed

lemma binPow_returns: "binPow a n \<noteq> None"
  by (cases "0 \<le> sint n") (simp_all add: binPow_nonneg binPow_neg)

lemma RunMain_st_RunMain:
  "map_sum id cout (RunMain_st \<lparr>cin = \<lparr>buf = input, eofbit = False, failbit = False\<rparr>, cout = []\<rparr>)
     = RunMain input"
  by (simp add: RunMain_st_def RunMain_def cin_extract_def cout_insert_def binPow_st_binPow
      split: prod.split option.split)


section \<open>The claims\<close>

text \<open>
  Claim C1. For every base and every exponent \<open>\<ge> 0\<close>, \<^verbatim>\<open>binPow\<close> returns, and the value
  it returns, read as a signed 64-bit integer, is the exact power of the base reduced
  modulo \<open>2 ^ 64\<close> and read in two's complement. Overflow is never detected or
  reported: the only outcome is that value.
\<close>

theorem binPow_exact_modulo_2_64:
  "0 \<le> sint n \<Longrightarrow> map_option sint (binPow a n) = Some (wrap64 (sint a ^ nat (sint n)))"
  by (simp add: binPow_nonneg sint_power_wrap)

theorem binPow_exact_modulo_2_64_witness:
  "0 \<le> sint (41 :: ll) \<and> map_option sint (binPow 3 41) = Some (- 420491770248316829)"
  using binPow_exact_modulo_2_64 [of 41 3] by (simp add: wrap64_def)

text \<open>
  Claim C2, as the specification states it: for a negative exponent the recursion never
  reaches \<^verbatim>\<open>n == 0\<close> and the call does not return. The code does otherwise: at
  \<^verbatim>\<open>binPow(2, -3)\<close> the test \<^verbatim>\<open>-3 % 2 == 1\<close> fails (\<^verbatim>\<open>-3 % 2\<close> is \<^verbatim>\<open>-1\<close>), the call halves
  \<^verbatim>\<open>-3 / 2 == -1\<close>, then \<^verbatim>\<open>-1 / 2 == 0\<close>, and returns \<open>1\<close>.
\<close>

theorem binPow_negative_exponent_returns_counterexample:
  "sint (- 3 :: ll) < 0 \<and> binPow 2 (- 3) = Some 1"
  by (simp add: binPow.simps ll_rem_def ll_div_def signed_modulo_int_def signed_divide_int_def)

text \<open>
  Claim C2, amended. For every negative exponent the recursion does reach
  \<^verbatim>\<open>n == 0\<close>: a negative exponent never takes the decrementing branch, the halving
  \<^verbatim>\<open>n / 2\<close> truncates towards zero, so the next exponent is strictly closer to zero and
  never above it, and the call returns.
\<close>

theorem binPow_negative_exponent_reaches_base:
  "sint n < 0 \<Longrightarrow>
     ll_rem n 2 \<noteq> 1 \<and> sint n < sint (ll_div n 2) \<and> sint (ll_div n 2) \<le> 0 \<and> binPow a n \<noteq> None"
  by (simp add: ll_rem_2_eq_1 neg_branch_increases binPow_neg)

theorem binPow_negative_exponent_reaches_base_witness:
  "sint (- 5 :: ll) < 0 \<and> ll_rem (- 5) 2 \<noteq> 1 \<and> sint (- 5 :: ll) < sint (ll_div (- 5) 2)
     \<and> sint (ll_div (- 5) 2) \<le> 0 \<and> binPow 2 (- 5) \<noteq> None"
  using binPow_negative_exponent_reaches_base [of "- 5" 2] by simp

text \<open>
  Claim C3. With an exponent \<open>\<ge> 0\<close> the call returns for every base. The recursion is
  well founded there: from a nonzero exponent the odd branch calls with \<^verbatim>\<open>n - 1\<close> and
  the other branch with \<^verbatim>\<open>n / 2\<close>, each of them still \<open>\<ge> 0\<close> and strictly smaller
  than \<open>n\<close>.
\<close>

theorem binPow_terminates_nonnegative:
  "0 \<le> sint n \<Longrightarrow>
     binPow a n \<noteq> None \<and>
     (n \<noteq> 0 \<longrightarrow>
        (if ll_rem n 2 = 1 then 0 \<le> sint (n - 1) \<and> sint (n - 1) < sint n
         else 0 \<le> sint (ll_div n 2) \<and> sint (ll_div n 2) < sint n))"
  by (simp add: binPow_nonneg odd_branch_decreases even_branch_decreases)

theorem binPow_terminates_nonnegative_witness:
  "0 \<le> sint (7 :: ll) \<and> binPow 3 7 \<noteq> None \<and> ll_rem 7 2 = 1 \<and> sint (7 - 1 :: ll) < sint (7 :: ll)
     \<and> 0 \<le> sint (6 :: ll) \<and> binPow 3 6 \<noteq> None \<and> ll_rem 6 2 \<noteq> 1
     \<and> sint (ll_div 6 2) < sint (6 :: ll)"
  using binPow_terminates_nonnegative [of 7 3] binPow_terminates_nonnegative [of 6 3]
  by (simp add: ll_rem_2_eq_1)

text \<open>
  Claim C4. For every base and every exponent \<open>> 0\<close>, both \<^verbatim>\<open>binPow(base, exponent)\<close>
  and \<^verbatim>\<open>binPow(base, exponent - 1)\<close> return, and the first value is the second times
  the base in wrap-around 64-bit multiplication, for even exponents as well as odd.
\<close>

theorem binPow_recurrence:
  "0 < sint n \<Longrightarrow>
     binPow a n = map_option (\<lambda>r. r * a) (binPow a (n - 1)) \<and> binPow a n \<noteq> None"
proof -
  assume pos: "0 < sint n"
  then have s: "sint (n - 1) = sint n - 1" by (rule sint_pred)
  have "a ^ nat (sint n - 1) * a = a ^ nat (sint n)"
    using pos by (cases "nat (sint n)") (simp_all add: nat_diff_distrib)
  with pos s show ?thesis by (simp add: binPow_nonneg)
qed

theorem binPow_recurrence_witness:
  "0 < sint (10 :: ll) \<and> binPow 2 10 = map_option (\<lambda>r. r * 2) (binPow 2 (10 - 1))
     \<and> binPow 2 10 \<noteq> None"
proof -
  have h: "0 < sint (10 :: ll)" by simp
  from h binPow_recurrence [OF h, of 2] show ?thesis by blast
qed

text \<open>
  Claim C5. For every base, the base \<open>0\<close> included, \<^verbatim>\<open>binPow(base, 0)\<close> returns \<open>1\<close>:
  the first test of the function body answers before the base is looked at.
\<close>

theorem binPow_zero_exponent: "binPow a 0 = Some 1"
  by (simp add: binPow.simps)

theorem binPow_zero_exponent_witness: "binPow 0 0 = Some 1 \<and> binPow (- 7) 0 = Some 1"
  using binPow_zero_exponent [of 0] binPow_zero_exponent [of "- 7"] by simp

text \<open>
  Claim C6. For every exponent \<open>> 0\<close>, \<^verbatim>\<open>binPow(0, exponent)\<close> returns \<open>0\<close>.
\<close>

theorem binPow_base_zero: "0 < sint n \<Longrightarrow> binPow 0 n = Some 0"
proof -
  assume pos: "0 < sint n"
  then have "0 < nat (sint n)" by simp
  then have "(0 :: ll) ^ nat (sint n) = 0" by (simp add: power_0_left)
  with pos show ?thesis by (simp add: binPow_nonneg)
qed

theorem binPow_base_zero_witness: "0 < sint (5 :: ll) \<and> binPow 0 5 = Some 0"
  using binPow_base_zero [of 5] by simp

text \<open>
  Claim C7. For every exponent \<open>\<ge> 0\<close>, \<^verbatim>\<open>binPow(1, exponent)\<close> returns \<open>1\<close>.
\<close>

theorem binPow_base_one: "0 \<le> sint n \<Longrightarrow> binPow 1 n = Some 1"
  by (simp add: binPow_nonneg)

theorem binPow_base_one_witness:
  "0 \<le> sint (0 :: ll) \<and> binPow 1 0 = Some 1 \<and> 0 \<le> sint (12 :: ll) \<and> binPow 1 12 = Some 1"
  using binPow_base_one [of 0] binPow_base_one [of 12] by simp

text \<open>
  Claim C8. On standard input made of a base and an exponent \<open>\<ge> 0\<close>, each written in
  decimal as the program itself would print it, with optional whitespace before the
  first, whitespace between the two, and nothing or a character other than a digit after
  the second, \<^verbatim>\<open>RunMain\<close> writes the power (the exact value wrapped into 64 signed bits)
  in decimal, followed by a newline. In particular \<^verbatim>\<open>2 10\<close> gives \<^verbatim>\<open>1024\<close>, \<^verbatim>\<open>3 0\<close> gives
  \<^verbatim>\<open>1\<close>, \<^verbatim>\<open>-2 3\<close> gives \<^verbatim>\<open>-8\<close>, \<^verbatim>\<open>5 1\<close> gives \<^verbatim>\<open>5\<close>, \<^verbatim>\<open>0 5\<close> gives \<^verbatim>\<open>0\<close> and
  \<^verbatim>\<open>2 62\<close> gives \<^verbatim>\<open>4611686018427387904\<close>.
\<close>

theorem RunMain_prints_power:
  "(list_all isspace ws1 \<and> ws2 \<noteq> [] \<and> list_all isspace ws2
      \<and> (rest = [] \<or> \<not> isdigit (hd rest)) \<and> 0 \<le> sint n
    \<longrightarrow> RunMain (ws1 @ show_ll a @ ws2 @ show_ll n @ rest)
          = Inr (show_int (wrap64 (sint a ^ nat (sint n))) @ [CHR 0x0A]))
   \<and> RunMain ''2 10'' = Inr (''1024'' @ [CHR 0x0A])
   \<and> RunMain ''3 0'' = Inr (''1'' @ [CHR 0x0A])
   \<and> RunMain ''-2 3'' = Inr (''-8'' @ [CHR 0x0A])
   \<and> RunMain ''5 1'' = Inr (''5'' @ [CHR 0x0A])
   \<and> RunMain ''0 5'' = Inr (''0'' @ [CHR 0x0A])
   \<and> RunMain ''2 62'' = Inr (''4611686018427387904'' @ [CHR 0x0A])"
proof -
  have general: "RunMain (ws1 @ show_ll a @ ws2 @ show_ll n @ rest)
          = Inr (show_int (wrap64 (sint a ^ nat (sint n))) @ [CHR 0x0A])"
    if "list_all isspace ws1" "ws2 \<noteq> []" "list_all isspace ws2"
       "rest = [] \<or> \<not> isdigit (hd rest)" "0 \<le> sint n"
  proof -
    from that have "RunMain (ws1 @ show_ll a @ ws2 @ show_ll n @ rest) =
        (case binPow a n of Some r \<Rightarrow> Inr (show_ll r @ [CHR 0x0A]) | None \<Rightarrow> Inl No_Return)"
      by (intro RunMain_two_numbers) (simp_all add: list_all_iff)
    with that(5) show ?thesis by (simp add: binPow_nonneg show_ll_def sint_power_wrap)
  qed
  have s1: "RunMain ''2 10'' = Inr (''1024'' @ [CHR 0x0A])" by code_simp
  have s2: "RunMain ''3 0'' = Inr (''1'' @ [CHR 0x0A])" by code_simp
  have s3: "RunMain ''-2 3'' = Inr (''-8'' @ [CHR 0x0A])" by code_simp
  have s4: "RunMain ''5 1'' = Inr (''5'' @ [CHR 0x0A])" by code_simp
  have s5: "RunMain ''0 5'' = Inr (''0'' @ [CHR 0x0A])" by code_simp
  have s6: "RunMain ''2 62'' = Inr (''4611686018427387904'' @ [CHR 0x0A])" by code_simp
  from general s1 s2 s3 s4 s5 s6 show ?thesis by blast
qed

theorem RunMain_prints_power_witness:
  "list_all isspace [] \<and> '' '' \<noteq> [] \<and> list_all isspace '' '' \<and> \<not> isdigit (hd [CHR 0x0A])
     \<and> 0 \<le> sint (3 :: ll)
     \<and> RunMain (''-2 3'' @ [CHR 0x0A]) = Inr (''-8'' @ [CHR 0x0A])"
proof -
  have h: "list_all isspace [] \<and> '' '' \<noteq> [] \<and> list_all isspace '' ''
      \<and> ([CHR 0x0A] = [] \<or> \<not> isdigit (hd [CHR 0x0A])) \<and> 0 \<le> sint (3 :: ll)"
    by (simp add: isspace_def isdigit_def)
  have sh: "show_ll (- 2) = ''-2''" "show_ll 3 = ''3''" "show_int (- 8) = ''-8''"
    by code_simp+
  have w: "wrap64 (- 8) = - 8" by (simp add: wrap64_def)
  from RunMain_prints_power [of "[]" "'' ''" "[CHR 0x0A]" 3 "- 2"] h
  have "RunMain ([] @ show_ll (- 2) @ '' '' @ show_ll 3 @ [CHR 0x0A])
          = Inr (show_int (wrap64 (sint (- 2 :: ll) ^ nat (sint (3 :: ll)))) @ [CHR 0x0A])"
    by blast
  then have "RunMain (''-2 3'' @ [CHR 0x0A]) = Inr (''-8'' @ [CHR 0x0A])"
    by (simp add: sh w)
  with h show ?thesis by simp
qed


text \<open>
  Claim C9. \<^verbatim>\<open>binPow\<close> is a pure, deterministic function of its two arguments. In
  whatever state of the program the call is made, it returns and the state it ends in
  is the state it began in: nothing was read from \<^verbatim>\<open>cin\<close> and nothing written to
  \<^verbatim>\<open>cout\<close>, the returned value is its only effect. Two calls with the same base and
  exponent, made in any two states, return the same value, which is the value of
  \<open>binPow\<close> at these arguments.
\<close>

theorem binPow_no_side_effects:
  "binPow_st a n w \<noteq> None
   \<and> map_option snd (binPow_st a n w) = Some w
   \<and> map_option fst (binPow_st a n w) = map_option fst (binPow_st a n v)
   \<and> map_option fst (binPow_st a n w) = binPow a n"
proof -
  from binPow_returns [of a n] obtain r where "binPow a n = Some r" by auto
  then show ?thesis by (simp add: binPow_st_binPow)
qed

theorem binPow_no_side_effects_witness:
  "binPow_st 3 2 \<lparr>cin = \<lparr>buf = ''7 8'', eofbit = False, failbit = False\<rparr>, cout = ''abc''\<rparr>
     = Some (9, \<lparr>cin = \<lparr>buf = ''7 8'', eofbit = False, failbit = False\<rparr>, cout = ''abc''\<rparr>)
   \<and> binPow_st 3 2 \<lparr>cin = \<lparr>buf = [], eofbit = True, failbit = False\<rparr>, cout = ''1024''\<rparr>
     = Some (9, \<lparr>cin = \<lparr>buf = [], eofbit = True, failbit = False\<rparr>, cout = ''1024''\<rparr>)"
proof -
  define w where "w = \<lparr>cin = \<lparr>buf = ''7 8'', eofbit = False, failbit = False\<rparr>, cout = ''abc''\<rparr>"
  define v where "v = \<lparr>cin = \<lparr>buf = [], eofbit = True, failbit = False\<rparr>, cout = ''1024''\<rparr>"
  have b: "binPow 3 2 = Some 9"
    by (simp add: binPow.simps ll_rem_def ll_div_def signed_modulo_int_def signed_divide_int_def)
  from binPow_no_side_effects [of 3 2 w v] b have "binPow_st 3 2 w = Some (9, w)"
    by (cases "binPow_st 3 2 w") auto
  moreover from binPow_no_side_effects [of 3 2 v w] b have "binPow_st 3 2 v = Some (9, v)"
    by (cases "binPow_st 3 2 v") auto
  ultimately show ?thesis by (simp add: w_def v_def)
qed

text \<open>
  Claim C10. For every base and every exponent \<open>< 0\<close>, \<^verbatim>\<open>binPow\<close> returns \<open>1\<close>. The
  truncating remainder \<^verbatim>\<open>n % 2\<close> of a negative \<open>n\<close> is \<open>0\<close> or \<open>-1\<close>, never \<open>1\<close>, so
  the call always takes the halving branch; the halved call returns \<open>1\<close> as well, so the
  only product formed is \<open>1 * 1\<close>.
\<close>

theorem binPow_negative_exponent_one:
  "sint n < 0 \<Longrightarrow>
     binPow a n = Some 1 \<and> binPow a (ll_div n 2) = Some 1
     \<and> ll_rem n 2 = (if even (sint n) then 0 else - 1)"
  by (simp add: binPow_neg binPow_nonpos_half ll_rem_2)

theorem binPow_negative_exponent_one_witness:
  "sint (- 7 :: ll) < 0 \<and> binPow 5 (- 7) = Some 1 \<and> binPow 5 (ll_div (- 7) 2) = Some 1
     \<and> ll_rem (- 7) 2 = - 1"
  using binPow_negative_exponent_one [of "- 7" 5] by simp

end
